theory Spec2Isabelle
  imports Main "HOL-Library.Sublist"
begin

section \<open>The regular expressions of the two scripts\<close>

text \<open>
  Both scripts read one file into a string, rewrite it with \<^verbatim>\<open>re.sub\<close> and write
  the result back. The text is modelled as a \<^typ>\<open>string\<close>; a \<^typ>\<open>char\<close> stands for a
  code point below 256. The part of Python's \<^verbatim>\<open>re\<close> module that the
  three patterns use is modelled below: literals, character classes, greedy and lazy
  repetition of a class, alternation, sequence and capture groups, matched by
  backtracking in the order of priority of \<^verbatim>\<open>re\<close>.
\<close>

text \<open>\<^verbatim>\<open>\s\<close> on a \<^verbatim>\<open>str\<close> pattern: the characters for which \<^verbatim>\<open>str.isspace\<close> holds.\<close>

definition is_space :: "char \<Rightarrow> bool" where
  "is_space c \<longleftrightarrow> c \<in> set [CHR 0x09, CHR 0x0A, CHR 0x0B, CHR 0x0C, CHR 0x0D,
     CHR 0x1C, CHR 0x1D, CHR 0x1E, CHR 0x1F, CHR 0x20, CHR 0x85, CHR 0xA0]"

datatype cls =
    Dot                 \<comment> \<open>\<^verbatim>\<open>.\<close> without DOTALL: anything but a line feed\<close>
  | Space               \<comment> \<open>\<^verbatim>\<open>\s\<close>\<close>
  | NonSpace            \<comment> \<open>\<^verbatim>\<open>\S\<close>\<close>
  | NoneOf "char list"  \<comment> \<open>\<^verbatim>\<open>[^...]\<close>\<close>
  | Union cls cls       \<comment> \<open>two items inside one bracket, as in \<^verbatim>\<open>[\s\S]\<close>\<close>

fun cls_matches :: "cls \<Rightarrow> char \<Rightarrow> bool" where
  "cls_matches Dot c = (c \<noteq> CHR 0x0A)"
| "cls_matches Space c = is_space c"
| "cls_matches NonSpace c = (\<not> is_space c)"
| "cls_matches (NoneOf cs) c = (c \<notin> set cs)"
| "cls_matches (Union a b) c = (cls_matches a c \<or> cls_matches b c)"

datatype regex =
    Lit string          \<comment> \<open>a run of literal characters\<close>
  | One cls             \<comment> \<open>\<^verbatim>\<open>[..]\<close>, one character of a class\<close>
  | Plus cls            \<comment> \<open>\<^verbatim>\<open>[..]+\<close>, greedy\<close>
  | Star cls            \<comment> \<open>\<^verbatim>\<open>[..]*\<close>, greedy\<close>
  | LazyStar cls        \<comment> \<open>\<^verbatim>\<open>[..]*?\<close>, lazy\<close>
  | Alt regex regex     \<comment> \<open>\<^verbatim>\<open>a|b\<close>\<close>
  | Seq regex regex     \<comment> \<open>\<^verbatim>\<open>ab\<close>\<close>
  | Group nat regex     \<comment> \<open>\<^verbatim>\<open>(a)\<close>, numbered\<close>

type_synonym groups = "nat \<Rightarrow> string"

text \<open>
  The matcher works on the text that is left, and calls a continuation with the text
  left after the piece it matched. A repetition that fails later is retried with the
  next length: shorter for a greedy one, longer for a lazy one.
\<close>

fun star_greedy :: "(char \<Rightarrow> bool) \<Rightarrow> string \<Rightarrow> (string \<Rightarrow> 'r option) \<Rightarrow> 'r option" where
  "star_greedy p [] k = k []"
| "star_greedy p (c # s) k =
     (if p c then (case star_greedy p s k of Some r \<Rightarrow> Some r | None \<Rightarrow> k (c # s))
      else k (c # s))"

fun star_lazy :: "(char \<Rightarrow> bool) \<Rightarrow> string \<Rightarrow> (string \<Rightarrow> 'r option) \<Rightarrow> 'r option" where
  "star_lazy p [] k = k []"
| "star_lazy p (c # s) k =
     (case k (c # s) of Some r \<Rightarrow> Some r
      | None \<Rightarrow> if p c then star_lazy p s k else None)"

fun bt :: "regex \<Rightarrow> string \<Rightarrow> groups \<Rightarrow> (string \<Rightarrow> groups \<Rightarrow> 'r option) \<Rightarrow> 'r option" where
  "bt (Lit l) s g k = (if prefix l s then k (drop (length l) s) g else None)"
| "bt (One p) s g k =
     (case s of [] \<Rightarrow> None | c # s' \<Rightarrow> if cls_matches p c then k s' g else None)"
| "bt (Plus p) s g k =
     (case s of [] \<Rightarrow> None
      | c # s' \<Rightarrow> if cls_matches p c then star_greedy (cls_matches p) s' (\<lambda>r. k r g) else None)"
| "bt (Star p) s g k = star_greedy (cls_matches p) s (\<lambda>r. k r g)"
| "bt (LazyStar p) s g k = star_lazy (cls_matches p) s (\<lambda>r. k r g)"
| "bt (Alt a b) s g k = (case bt a s g k of Some r \<Rightarrow> Some r | None \<Rightarrow> bt b s g k)"
| "bt (Seq a b) s g k = bt a s g (\<lambda>r g'. bt b r g' k)"
| "bt (Group n a) s g k = bt a s g (\<lambda>r g'. k r (g'(n := take (length s - length r) s)))"

text \<open>
  A match object: group 0 is the matched span, groups 1.. are the captures.
  \<open>re_match\<close> tries the pattern at the start of the text and returns the match and
  the text after the span.
\<close>

definition re_match :: "regex \<Rightarrow> string \<Rightarrow> (groups \<times> string) option" where
  "re_match r s =
     bt r s (\<lambda>_. []) (\<lambda>rest g. Some (g(0 := take (length s - length rest) s), rest))"

text \<open>
  \<^verbatim>\<open>re.sub(pattern, repl, string)\<close>: the leftmost match is looked for from the
  current position, the text before it is copied, the match is replaced, and the
  search goes on after the span. A span of the scripts' patterns is never empty (each
  starts with the function name); an empty match would be replaced and the next
  character copied.
\<close>

function re_sub :: "regex \<Rightarrow> (groups \<Rightarrow> string) \<Rightarrow> string \<Rightarrow> string" where
  "re_sub r f s =
     (case re_match r s of
        Some (g, rest) \<Rightarrow>
          if length rest < length s then f g @ re_sub r f rest
          else f g @ (case s of [] \<Rightarrow> [] | c # s' \<Rightarrow> c # re_sub r f s')
      | None \<Rightarrow> (case s of [] \<Rightarrow> [] | c # s' \<Rightarrow> c # re_sub r f s'))"
  by pat_completeness auto
termination
  by (relation "measure (\<lambda>(r, f, s). length s)") auto

declare re_sub.simps [simp del]

text \<open>A replacement template such as \<^verbatim>\<open>r'f(\1, \2)'\<close>: literal text and group references.\<close>

datatype piece = Txt string | Ref nat

fun expand :: "piece list \<Rightarrow> groups \<Rightarrow> string" where
  "expand [] g = []"
| "expand (Txt t # ps) g = t @ expand ps g"
| "expand (Ref n # ps) g = g n @ expand ps g"

section \<open>fix-template-queries.py\<close>

definition pattern1 :: regex where
  "pattern1 =
     Seq (Lit ''executeQuery('')
    (Seq (Group 1 (Plus (NoneOf '','')))
    (Seq (Lit '','')
    (Seq (Star Space)
    (Seq (Group 2 (Seq (Lit ''['') (Seq (Star (NoneOf '']'')) (Lit '']''))))
    (Seq (Star Space)
         (Lit '');''))))))"

definition template1 :: "piece list" where
  "template1 = [Txt ''executeQuery('', Ref 1, Txt '', '', Ref 2, Txt '', mapRowToObject);'']"

definition pattern2 :: regex where
  "pattern2 =
     Seq (Lit ''executeQuery('')
    (Seq (Group 1 (Plus (NoneOf '','')))
    (Seq (Lit '','')
    (Seq (Star Space)
    (Seq (Group 2 (Seq (Lit ''['') (Seq (Star (NoneOf '']'')) (Lit '']''))))
    (Seq (Star Space)
    (Seq (Lit '')'')
         (Group 3 (One (NoneOf '';'')))))))))"

definition template2 :: "piece list" where
  "template2 = [Txt ''executeQuery('', Ref 1, Txt '', '', Ref 2, Txt '', mapRowToObject)'', Ref 3]"

text \<open>The two substitutions, the second on the result of the first.\<close>

definition normalize_v1 :: "string \<Rightarrow> string" where
  "normalize_v1 content =
     (let content = re_sub pattern1 (expand template1) content;
          content = re_sub pattern2 (expand template2) content
      in content)"

section \<open>fix-template-queries-v2.py\<close>

definition pattern :: regex where
  "pattern =
     Seq (Lit ''executeQuery('')
    (Seq (Group 1 (Alt (Lit ''query'') (LazyStar Dot)))
    (Seq (Lit '','')
    (Seq (Star Space)
    (Seq (Group 2 (Seq (Lit ''['') (Seq (LazyStar (Union Space NonSpace)) (Lit '']''))))
    (Seq (Star Space)
         (Lit '')''))))))"

text \<open>\<^verbatim>\<open>needle in hay\<close> on strings.\<close>

fun contains :: "string \<Rightarrow> string \<Rightarrow> bool" where
  "contains needle [] = (needle = [])"
| "contains needle (c # cs) = (prefix needle (c # cs) \<or> contains needle cs)"

definition replacer :: "groups \<Rightarrow> string" where
  "replacer m =
     (let first_arg = m 1; second_arg = m 2
      in if contains ''mapRowToObject'' (m 0) then m 0
         else ''executeQuery('' @ first_arg @ '', '' @ second_arg @ '', mapRowToObject)'')"

definition normalize_v2 :: "string \<Rightarrow> string" where
  "normalize_v2 content = re_sub pattern replacer content"

section \<open>The scripts as a whole\<close>

text \<open>
  A script opens the file at a fixed path, which raises when the file is missing,
  rewrites the content, writes it back and prints one line. The file system is a map
  from paths to contents; the result is the error, or the new file system and what
  was printed.
\<close>

datatype error = FileNotFoundError

type_synonym files = "string \<rightharpoonup> string"

definition path :: string where
  "path = ''services/database/queries/template-queries.js''"

definition script_v1 :: "files \<Rightarrow> error + files \<times> string" where
  "script_v1 fs =
     (case fs path of
        None \<Rightarrow> Inl FileNotFoundError
      | Some content \<Rightarrow>
          Inr (fs(path \<mapsto> normalize_v1 content), ''Fixed all executeQuery calls!\<newline>''))"

definition script_v2 :: "files \<Rightarrow> error + files \<times> string" where
  "script_v2 fs =
     (case fs path of
        None \<Rightarrow> Inl FileNotFoundError
      | Some content \<Rightarrow>
          Inr (fs(path \<mapsto> normalize_v2 content), ''Fixed all executeQuery calls (v2)!\<newline>''))"

section \<open>Properties of the matcher\<close>

text \<open>
  What a successful match says about the text (the shape of a match of each pattern),
  when a pattern is sure to match, and how \<open>re_sub\<close> goes through a text.
\<close>

subsection \<open>What a match says about the text\<close>

lemma star_greedy_SomeD:
  "star_greedy p s k = Some r \<Longrightarrow> \<exists>pre post. s = pre @ post \<and> (\<forall>c\<in>set pre. p c) \<and> k post = Some r"
proof (induction s)
  case Nil
  then show ?case by simp
next
  case (Cons c s)
  show ?case
  proof (cases "p c \<and> star_greedy p s k \<noteq> None")
    case True
    with Cons.prems have "star_greedy p s k = Some r" by auto
    from Cons.IH [OF this] obtain pre post where "s = pre @ post" "\<forall>c\<in>set pre. p c" "k post = Some r"
      by blast
    with True have "c # s = (c # pre) @ post \<and> (\<forall>c\<in>set (c # pre). p c) \<and> k post = Some r" by simp
    then show ?thesis by blast
  next
    case False
    with Cons.prems have "k (c # s) = Some r" by (auto split: if_splits)
    then have "c # s = [] @ (c # s) \<and> (\<forall>c\<in>set []. p c) \<and> k (c # s) = Some r" by simp
    then show ?thesis by blast
  qed
qed

lemma star_lazy_SomeD:
  "star_lazy p s k = Some r \<Longrightarrow> \<exists>pre post. s = pre @ post \<and> (\<forall>c\<in>set pre. p c) \<and> k post = Some r"
proof (induction s)
  case Nil
  then show ?case by simp
next
  case (Cons c s)
  show ?case
  proof (cases "k (c # s)")
    case (Some a)
    with Cons.prems have "c # s = [] @ (c # s) \<and> (\<forall>c\<in>set []. p c) \<and> k (c # s) = Some r" by simp
    then show ?thesis by blast
  next
    case None
    with Cons.prems have pc: "p c" and "star_lazy p s k = Some r" by (auto split: if_splits)
    from Cons.IH [OF this(2)] obtain pre post where "s = pre @ post" "\<forall>c\<in>set pre. p c" "k post = Some r"
      by blast
    with pc have "c # s = (c # pre) @ post \<and> (\<forall>c\<in>set (c # pre). p c) \<and> k post = Some r" by simp
    then show ?thesis by blast
  qed
qed


lemma bt_Seq_LitD:
  "bt (Seq (Lit l) T) s g k = Some x \<Longrightarrow> \<exists>r. s = l @ r \<and> bt T r g k = Some x"
  by (auto simp: prefix_def split: if_splits)

lemma bt_LitD:
  "bt (Lit l) s g k = Some x \<Longrightarrow> \<exists>r. s = l @ r \<and> k r g = Some x"
  by (auto simp: prefix_def split: if_splits)

lemma bt_Seq_StarD:
  "bt (Seq (Star p) T) s g k = Some x \<Longrightarrow>
   \<exists>pre r. s = pre @ r \<and> (\<forall>c\<in>set pre. cls_matches p c) \<and> bt T r g k = Some x"
  by (auto dest!: star_greedy_SomeD)

lemma bt_Seq_LazyStarD:
  "bt (Seq (LazyStar p) T) s g k = Some x \<Longrightarrow>
   \<exists>pre r. s = pre @ r \<and> (\<forall>c\<in>set pre. cls_matches p c) \<and> bt T r g k = Some x"
  by (auto dest!: star_lazy_SomeD)

lemma bt_PlusD:
  "bt (Plus p) s g k = Some x \<Longrightarrow>
   \<exists>pre r. s = pre @ r \<and> pre \<noteq> [] \<and> (\<forall>c\<in>set pre. cls_matches p c) \<and> k r g = Some x"
proof -
  assume a: "bt (Plus p) s g k = Some x"
  then obtain c s' where s: "s = c # s'" and c: "cls_matches p c"
    and "star_greedy (cls_matches p) s' (\<lambda>r. k r g) = Some x"
    by (auto split: list.splits if_splits)
  from star_greedy_SomeD [OF this(3)] obtain pre post where
    "s' = pre @ post" "\<forall>c\<in>set pre. cls_matches p c" "k post g = Some x" by blast
  with s c have "s = (c # pre) @ post \<and> c # pre \<noteq> [] \<and> (\<forall>c\<in>set (c # pre). cls_matches p c) \<and> k post g = Some x"
    by simp
  then show ?thesis by blast
qed

lemma bt_Seq_GroupD:
  "bt (Seq (Group n A) T) s g k = Some x \<Longrightarrow>
   bt A s g (\<lambda>r g'. bt T r (g'(n := take (length s - length r) s)) k) = Some x"
  by simp

lemma bt_GroupD:
  "bt (Group n A) s g k = Some x \<Longrightarrow>
   bt A s g (\<lambda>r g'. k r (g'(n := take (length s - length r) s))) = Some x"
  by simp

lemma take_span: "s = xs @ ys \<Longrightarrow> take (length s - length ys) s = xs"
  by simp

lemma call_shapeD:
  assumes A: "\<forall>s g k (x::'r). bt A s g k = Some x \<longrightarrow> (\<exists>pre r. s = pre @ r \<and> PA pre \<and> k r g = Some x)"
    and B: "\<forall>s g k (x::'r). bt B s g k = Some x \<longrightarrow> (\<exists>pre r. s = pre @ r \<and> PB pre \<and> k r g = Some x)"
    and m: "bt (Seq (Lit l1) (Seq (Group n1 A) (Seq (Lit l2) (Seq (Star p2)
              (Seq (Group n2 (Seq (Lit l3) (Seq B (Lit l4)))) (Seq (Star p4) E)))))) s g k = Some (x::'r)"
  shows "\<exists>g1 ws b ws' r. s = l1 @ g1 @ l2 @ ws @ l3 @ b @ l4 @ ws' @ r \<and> PA g1
           \<and> (\<forall>c\<in>set ws. cls_matches p2 c) \<and> PB b \<and> (\<forall>c\<in>set ws'. cls_matches p4 c)
           \<and> bt E r (g(n1 := g1, n2 := l3 @ b @ l4)) k = Some x"
proof -
  let ?T5 = "Seq (Star p4) E"
  let ?G2 = "Seq (Lit l3) (Seq B (Lit l4))"
  let ?T4 = "Seq (Group n2 ?G2) ?T5"
  let ?T3 = "Seq (Star p2) ?T4"
  let ?T2 = "Seq (Lit l2) ?T3"
  let ?T1 = "Seq (Group n1 A) ?T2"
  from bt_Seq_LitD [OF m] obtain r0 where s0: "s = l1 @ r0" and "bt ?T1 r0 g k = Some x"
    by blast
  from bt_Seq_GroupD [OF this(2)]
  have "bt A r0 g (\<lambda>r g'. bt ?T2 r (g'(n1 := take (length r0 - length r) r0)) k) = Some x" .
  from A [rule_format, OF this] obtain g1 r1 where r0: "r0 = g1 @ r1" and g1: "PA g1"
    and "bt ?T2 r1 (g(n1 := take (length r0 - length r1) r0)) k = Some x"
    by blast
  then have "bt ?T2 r1 (g(n1 := g1)) k = Some x" by simp
  from bt_Seq_LitD [OF this] obtain r2 where r1: "r1 = l2 @ r2"
    and "bt ?T3 r2 (g(n1 := g1)) k = Some x"
    by blast
  from bt_Seq_StarD [OF this(2)] obtain ws r3 where r2: "r2 = ws @ r3"
    and ws: "\<forall>c\<in>set ws. cls_matches p2 c" and "bt ?T4 r3 (g(n1 := g1)) k = Some x"
    by blast
  from bt_Seq_GroupD [OF this(3)]
  have "bt ?G2 r3 (g(n1 := g1)) (\<lambda>r g'. bt ?T5 r (g'(n2 := take (length r3 - length r) r3)) k) = Some x" .
  from bt_Seq_LitD [OF this] obtain r4 where r3: "r3 = l3 @ r4"
    and "bt (Seq B (Lit l4)) r4 (g(n1 := g1))
           (\<lambda>r g'. bt ?T5 r (g'(n2 := take (length r3 - length r) r3)) k) = Some x"
    by blast
  then have "bt B r4 (g(n1 := g1))
           (\<lambda>r g'. bt (Lit l4) r g' (\<lambda>r g'. bt ?T5 r (g'(n2 := take (length r3 - length r) r3)) k)) = Some x"
    by simp
  from B [rule_format, OF this] obtain b r5 where r4: "r4 = b @ r5" and b: "PB b"
    and "bt (Lit l4) r5 (g(n1 := g1))
           (\<lambda>r g'. bt ?T5 r (g'(n2 := take (length r3 - length r) r3)) k) = Some x"
    by blast
  from bt_LitD [OF this(3)] obtain r6 where r5: "r5 = l4 @ r6"
    and t5: "bt ?T5 r6 (g(n1 := g1, n2 := take (length r3 - length r6) r3)) k = Some x"
    by blast
  have "r3 = (l3 @ b @ l4) @ r6" by (simp add: r3 r4 r5)
  from take_span [OF this] t5 have "bt ?T5 r6 (g(n1 := g1, n2 := l3 @ b @ l4)) k = Some x"
    by simp
  from bt_Seq_StarD [OF this] obtain ws' r where r6: "r6 = ws' @ r"
    and ws': "\<forall>c\<in>set ws'. cls_matches p4 c"
    and e: "bt E r (g(n1 := g1, n2 := l3 @ b @ l4)) k = Some x"
    by blast
  have "s = l1 @ g1 @ l2 @ ws @ l3 @ b @ l4 @ ws' @ r"
    by (simp add: s0 r0 r1 r2 r3 r4 r5 r6)
  with g1 ws b ws' e show ?thesis by blast
qed

lemma bt_StarD:
  "bt (Star p) s g k = Some x \<Longrightarrow>
   \<exists>pre r. s = pre @ r \<and> (\<forall>c\<in>set pre. cls_matches p c) \<and> k r g = Some x"
  by (auto dest!: star_greedy_SomeD)

lemma bt_LazyStarD:
  "bt (LazyStar p) s g k = Some x \<Longrightarrow>
   \<exists>pre r. s = pre @ r \<and> (\<forall>c\<in>set pre. cls_matches p c) \<and> k r g = Some x"
  by (auto dest!: star_lazy_SomeD)

lemma bt_Alt_Lit_LazyStarD:
  assumes "bt (Alt (Lit q) (LazyStar p)) s g k = Some x"
  shows "\<exists>pre r. s = pre @ r \<and> (pre = q \<or> (\<forall>c\<in>set pre. cls_matches p c)) \<and> k r g = Some x"
proof (cases "bt (Lit q) s g k")
  case None
  with assms have "bt (LazyStar p) s g k = Some x" by simp
  from bt_LazyStarD [OF this] show ?thesis by blast
next
  case (Some y)
  with assms have "bt (Lit q) s g k = Some x" by simp
  from bt_LitD [OF this] show ?thesis by blast
qed

lemma bt_Plus_NoneOfD:
  "bt (Plus (NoneOf cs)) s g k = Some (x::'r) \<Longrightarrow>
   \<exists>pre r. s = pre @ r \<and> (pre \<noteq> [] \<and> (\<forall>c\<in>set pre. c \<notin> set cs)) \<and> k r g = Some x"
  by (drule bt_PlusD) auto

lemma bt_Star_NoneOfD:
  "bt (Star (NoneOf cs)) s g k = Some (x::'r) \<Longrightarrow>
   \<exists>pre r. s = pre @ r \<and> (\<forall>c\<in>set pre. c \<notin> set cs) \<and> k r g = Some x"
  by (drule bt_StarD) auto

lemma re_match_pattern1D:
  assumes "re_match pattern1 s = Some (g, rest)"
  shows "\<exists>g1 ws b ws'. s = ''executeQuery('' @ g1 @ '','' @ ws @ ''['' @ b @ '']'' @ ws' @ '');'' @ rest
     \<and> g1 \<noteq> [] \<and> CHR '','' \<notin> set g1 \<and> (\<forall>c\<in>set ws. is_space c) \<and> CHR '']'' \<notin> set b
     \<and> (\<forall>c\<in>set ws'. is_space c) \<and> g 1 = g1 \<and> g 2 = ''['' @ b @ '']''
     \<and> g 0 = ''executeQuery('' @ g1 @ '','' @ ws @ ''['' @ b @ '']'' @ ws' @ '');''"
proof -
  let ?K = "\<lambda>rest g. Some (g(0 := take (length s - length rest) s), rest)"
  from assms have "bt pattern1 s (\<lambda>_. []) ?K = Some (g, rest)"
    by (simp add: re_match_def)
  then have m: "bt (Seq (Lit ''executeQuery('') (Seq (Group 1 (Plus (NoneOf '','')))
      (Seq (Lit '','') (Seq (Star Space)
      (Seq (Group 2 (Seq (Lit ''['') (Seq (Star (NoneOf '']'')) (Lit '']''))))
      (Seq (Star Space) (Lit '');''))))))) s (\<lambda>_. []) ?K = Some (g, rest)"
    by (simp only: pattern1_def)
  have A: "\<forall>s g k (x::groups \<times> string). bt (Plus (NoneOf '','')) s g k = Some x \<longrightarrow>
      (\<exists>pre r. s = pre @ r \<and> (pre \<noteq> [] \<and> (\<forall>c\<in>set pre. c \<notin> set '','')) \<and> k r g = Some x)"
    by (intro allI impI) (rule bt_Plus_NoneOfD)
  have B: "\<forall>s g k (x::groups \<times> string). bt (Star (NoneOf '']'')) s g k = Some x \<longrightarrow>
      (\<exists>pre r. s = pre @ r \<and> (\<forall>c\<in>set pre. c \<notin> set '']'') \<and> k r g = Some x)"
    by (intro allI impI) (rule bt_Star_NoneOfD)
  from call_shapeD [where PA = "\<lambda>pre. pre \<noteq> [] \<and> (\<forall>c\<in>set pre. c \<notin> set '','')"
      and PB = "\<lambda>pre. \<forall>c\<in>set pre. c \<notin> set '']''", OF A B m]
  obtain g1 ws b ws' r where
    s: "s = ''executeQuery('' @ g1 @ '','' @ ws @ ''['' @ b @ '']'' @ ws' @ r"
    and g1: "g1 \<noteq> []" "\<forall>c\<in>set g1. c \<notin> set '',''"
    and ws: "\<forall>c\<in>set ws. cls_matches Space c" "\<forall>c\<in>set ws'. cls_matches Space c"
    and b: "\<forall>c\<in>set b. c \<notin> set '']''"
    and e: "bt (Lit '');'') r ((\<lambda>_. [])(1 := g1, 2 := ''['' @ b @ '']'')) ?K = Some (g, rest)"
    by blast
  from bt_LitD [OF e] have r: "r = '');'' @ rest"
    and g: "g = (\<lambda>_. [])(1 := g1, 2 := ''['' @ b @ '']'', 0 := take (length s - length rest) s)"
    by auto
  have "s = (''executeQuery('' @ g1 @ '','' @ ws @ ''['' @ b @ '']'' @ ws' @ '');'') @ rest"
    by (simp add: s r)
  from take_span [OF this]
  have g0: "g 0 = ''executeQuery('' @ g1 @ '','' @ ws @ ''['' @ b @ '']'' @ ws' @ '');''"
    unfolding g by simp
  have "g 1 = g1" "g 2 = ''['' @ b @ '']''" unfolding g by simp_all
  moreover have "CHR '','' \<notin> set g1" "CHR '']'' \<notin> set b" using g1 b by auto
  moreover have "\<forall>c\<in>set ws. is_space c" "\<forall>c\<in>set ws'. is_space c" using ws by auto
  moreover have "s = ''executeQuery('' @ g1 @ '','' @ ws @ ''['' @ b @ '']'' @ ws' @ '');'' @ rest"
    by (simp add: s r)
  ultimately show ?thesis using g1(1) g0 by blast
qed

lemma re_match_pattern2D:
  assumes "re_match pattern2 s = Some (g, rest)"
  shows "\<exists>g1 ws b ws' c. s = ''executeQuery('' @ g1 @ '','' @ ws @ ''['' @ b @ '']'' @ ws' @ '')'' @ [c] @ rest
     \<and> g1 \<noteq> [] \<and> CHR '','' \<notin> set g1 \<and> (\<forall>c\<in>set ws. is_space c) \<and> CHR '']'' \<notin> set b
     \<and> (\<forall>c\<in>set ws'. is_space c) \<and> c \<noteq> CHR '';'' \<and> g 1 = g1 \<and> g 2 = ''['' @ b @ '']'' \<and> g 3 = [c]
     \<and> g 0 = ''executeQuery('' @ g1 @ '','' @ ws @ ''['' @ b @ '']'' @ ws' @ '')'' @ [c]"
proof -
  let ?K = "\<lambda>rest g. Some (g(0 := take (length s - length rest) s), rest)"
  from assms have m: "bt pattern2 s (\<lambda>_. []) ?K = Some (g, rest)"
    by (simp add: re_match_def)
  have A: "\<forall>s g k (x::groups \<times> string). bt (Plus (NoneOf '','')) s g k = Some x \<longrightarrow>
      (\<exists>pre r. s = pre @ r \<and> (pre \<noteq> [] \<and> (\<forall>c\<in>set pre. c \<notin> set '','')) \<and> k r g = Some x)"
    by (intro allI impI) (rule bt_Plus_NoneOfD)
  have B: "\<forall>s g k (x::groups \<times> string). bt (Star (NoneOf '']'')) s g k = Some x \<longrightarrow>
      (\<exists>pre r. s = pre @ r \<and> (\<forall>c\<in>set pre. c \<notin> set '']'') \<and> k r g = Some x)"
    by (intro allI impI) (rule bt_Star_NoneOfD)
  from call_shapeD [where PA = "\<lambda>pre. pre \<noteq> [] \<and> (\<forall>c\<in>set pre. c \<notin> set '','')"
      and PB = "\<lambda>pre. \<forall>c\<in>set pre. c \<notin> set '']''", OF A B m [unfolded pattern2_def]]
  obtain g1 ws b ws' r where
    s: "s = ''executeQuery('' @ g1 @ '','' @ ws @ ''['' @ b @ '']'' @ ws' @ r"
    and g1: "g1 \<noteq> []" "\<forall>c\<in>set g1. c \<notin> set '',''"
    and ws: "\<forall>c\<in>set ws. cls_matches Space c" "\<forall>c\<in>set ws'. cls_matches Space c"
    and b: "\<forall>c\<in>set b. c \<notin> set '']''"
    and e: "bt (Seq (Lit '')'') (Group 3 (One (NoneOf '';''))))
              r ((\<lambda>_. [])(1 := g1, 2 := ''['' @ b @ '']'')) ?K = Some (g, rest)"
    by blast
  from bt_Seq_LitD [OF e] obtain r' where r: "r = '')'' @ r'"
    and "bt (Group 3 (One (NoneOf '';''))) r' ((\<lambda>_. [])(1 := g1, 2 := ''['' @ b @ '']'')) ?K = Some (g, rest)"
    by blast
  then obtain c where r': "r' = c # rest" and c: "c \<noteq> CHR '';''"
    and g: "g = (\<lambda>_. [])(1 := g1, 2 := ''['' @ b @ '']'', 3 := [c], 0 := take (length s - length rest) s)"
    by (auto split: list.splits if_splits)
  have "s = (''executeQuery('' @ g1 @ '','' @ ws @ ''['' @ b @ '']'' @ ws' @ '')'' @ [c]) @ rest"
    by (simp add: s r r')
  from take_span [OF this]
  have g0: "g 0 = ''executeQuery('' @ g1 @ '','' @ ws @ ''['' @ b @ '']'' @ ws' @ '')'' @ [c]"
    unfolding g by simp
  have "g 1 = g1" "g 2 = ''['' @ b @ '']''" "g 3 = [c]" unfolding g by simp_all
  moreover have "CHR '','' \<notin> set g1" "CHR '']'' \<notin> set b" using g1 b by auto
  moreover have "\<forall>c\<in>set ws. is_space c" "\<forall>c\<in>set ws'. is_space c" using ws by auto
  moreover have "s = ''executeQuery('' @ g1 @ '','' @ ws @ ''['' @ b @ '']'' @ ws' @ '')'' @ [c] @ rest"
    by (simp add: s r r')
  ultimately show ?thesis using g1(1) g0 c by blast
qed

lemma re_match_patternD:
  assumes "re_match pattern s = Some (g, rest)"
  shows "\<exists>g1 ws b ws'. s = ''executeQuery('' @ g1 @ '','' @ ws @ ''['' @ b @ '']'' @ ws' @ '')'' @ rest
     \<and> CHR 0x0A \<notin> set g1 \<and> (\<forall>c\<in>set ws. is_space c)
     \<and> (\<forall>c\<in>set ws'. is_space c) \<and> g 1 = g1 \<and> g 2 = ''['' @ b @ '']''
     \<and> g 0 = ''executeQuery('' @ g1 @ '','' @ ws @ ''['' @ b @ '']'' @ ws' @ '')''"
proof -
  let ?K = "\<lambda>rest g. Some (g(0 := take (length s - length rest) s), rest)"
  from assms have m: "bt pattern s (\<lambda>_. []) ?K = Some (g, rest)"
    by (simp add: re_match_def)
  have A: "\<forall>s g k (x::groups \<times> string). bt (Alt (Lit ''query'') (LazyStar Dot)) s g k = Some x \<longrightarrow>
      (\<exists>pre r. s = pre @ r \<and> CHR 0x0A \<notin> set pre \<and> k r g = Some x)"
  proof (intro allI impI)
    fix s g k and x :: "groups \<times> string"
    assume "bt (Alt (Lit ''query'') (LazyStar Dot)) s g k = Some x"
    from bt_Alt_Lit_LazyStarD [OF this] obtain pre r where "s = pre @ r"
      "pre = ''query'' \<or> (\<forall>c\<in>set pre. cls_matches Dot c)" "k r g = Some x" by blast
    moreover from this(2) have "CHR 0x0A \<notin> set pre" by auto
    ultimately show "\<exists>pre r. s = pre @ r \<and> CHR 0x0A \<notin> set pre \<and> k r g = Some x" by blast
  qed
  have B: "\<forall>s g k (x::groups \<times> string). bt (LazyStar (Union Space NonSpace)) s g k = Some x \<longrightarrow>
      (\<exists>pre r. s = pre @ r \<and> True \<and> k r g = Some x)"
    by (intro allI impI) (drule bt_LazyStarD, blast)
  from call_shapeD [where PA = "\<lambda>pre. CHR 0x0A \<notin> set pre" and PB = "\<lambda>pre. True",
      OF A B m [unfolded pattern_def]]
  obtain g1 ws b ws' r where
    s: "s = ''executeQuery('' @ g1 @ '','' @ ws @ ''['' @ b @ '']'' @ ws' @ r"
    and g1: "CHR 0x0A \<notin> set g1"
    and ws: "\<forall>c\<in>set ws. cls_matches Space c" "\<forall>c\<in>set ws'. cls_matches Space c"
    and e: "bt (Lit '')'') r ((\<lambda>_. [])(1 := g1, 2 := ''['' @ b @ '']'')) ?K = Some (g, rest)"
    by blast
  from bt_LitD [OF e] have r: "r = '')'' @ rest"
    and g: "g = (\<lambda>_. [])(1 := g1, 2 := ''['' @ b @ '']'', 0 := take (length s - length rest) s)"
    by auto
  have "s = (''executeQuery('' @ g1 @ '','' @ ws @ ''['' @ b @ '']'' @ ws' @ '')'') @ rest"
    by (simp add: s r)
  from take_span [OF this]
  have g0: "g 0 = ''executeQuery('' @ g1 @ '','' @ ws @ ''['' @ b @ '']'' @ ws' @ '')''"
    unfolding g by simp
  have "g 1 = g1" "g 2 = ''['' @ b @ '']''" unfolding g by simp_all
  moreover have "\<forall>c\<in>set ws. is_space c" "\<forall>c\<in>set ws'. is_space c" using ws by auto
  moreover have "s = ''executeQuery('' @ g1 @ '','' @ ws @ ''['' @ b @ '']'' @ ws' @ '')'' @ rest"
    by (simp add: s r)
  ultimately show ?thesis using g1 g0 by blast
qed

subsection \<open>When a pattern is sure to match\<close>

lemma star_greedy_app:
  "\<forall>c\<in>set pre. p c \<Longrightarrow> post = [] \<or> \<not> p (hd post) \<Longrightarrow> k post = Some x \<Longrightarrow>
   star_greedy p (pre @ post) k = Some x"
proof (induction pre)
  case Nil
  then show ?case by (cases post) auto
next
  case (Cons c pre)
  then show ?case by simp
qed

lemma star_lazy_app:
  "\<forall>c\<in>set pre. p c \<Longrightarrow> (\<And>c s. c \<in> set pre \<Longrightarrow> k (c # s) = None) \<Longrightarrow> k post = Some x \<Longrightarrow>
   star_lazy p (pre @ post) k = Some x"
proof (induction pre)
  case Nil
  then show ?case by (cases post) auto
next
  case (Cons c pre)
  then show ?case by simp
qed

lemma bt_Seq_LitI:
  "bt T r g k = Some x \<Longrightarrow> bt (Seq (Lit l) T) (l @ r) g k = Some x"
  by simp

lemma bt_LitI:
  "k r g = Some x \<Longrightarrow> bt (Lit l) (l @ r) g k = Some x"
  by simp

lemma bt_Seq_StarI:
  "\<forall>c\<in>set pre. cls_matches p c \<Longrightarrow> r = [] \<or> \<not> cls_matches p (hd r) \<Longrightarrow>
   bt T r g k = Some x \<Longrightarrow> bt (Seq (Star p) T) (pre @ r) g k = Some x"
  by (simp add: star_greedy_app)

lemma bt_Seq_GroupI:
  "bt A s g (\<lambda>r g'. bt T r (g'(n := take (length s - length r) s)) k) = Some x \<Longrightarrow>
   bt (Seq (Group n A) T) s g k = Some x"
  by simp

lemma bt_PlusI:
  "pre \<noteq> [] \<Longrightarrow> \<forall>c\<in>set pre. cls_matches p c \<Longrightarrow> r = [] \<or> \<not> cls_matches p (hd r) \<Longrightarrow>
   k r g = Some x \<Longrightarrow> bt (Plus p) (pre @ r) g k = Some x"
  by (cases pre) (simp_all add: star_greedy_app)

lemma bt_Seq_LazyStarI:
  "\<forall>c\<in>set pre. cls_matches p c \<Longrightarrow> (\<And>c s. c \<in> set pre \<Longrightarrow> bt T (c # s) g k = None) \<Longrightarrow>
   bt T r g k = Some x \<Longrightarrow> bt (Seq (LazyStar p) T) (pre @ r) g k = Some x"
  by (simp add: star_lazy_app)

lemma re_match_pattern1I:
  assumes g1: "g1 \<noteq> []" "CHR '','' \<notin> set g1"
    and ws: "\<forall>c\<in>set ws. is_space c" "\<forall>c\<in>set ws'. is_space c"
    and b: "CHR '']'' \<notin> set b"
  shows "\<exists>g. re_match pattern1
            (''executeQuery('' @ g1 @ '','' @ ws @ ''['' @ b @ '']'' @ ws' @ '');'' @ rest) = Some (g, rest)
          \<and> g 1 = g1 \<and> g 2 = ''['' @ b @ '']''"
proof -
  have sp: "\<not> is_space CHR ''[''" "\<not> is_space CHR '')''" by (simp_all add: is_space_def)
  let ?s = "''executeQuery('' @ g1 @ '','' @ ws @ ''['' @ b @ '']'' @ ws' @ '');'' @ rest"
  let ?K = "\<lambda>r g. Some (g(0 := take (length ?s - length r) ?s), r)"
  let ?g = "(\<lambda>_::nat. [])(1 := take (length (g1 @ '','' @ ws @ ''['' @ b @ '']'' @ ws' @ '');'' @ rest)
                           - length ('','' @ ws @ ''['' @ b @ '']'' @ ws' @ '');'' @ rest))
                          (g1 @ '','' @ ws @ ''['' @ b @ '']'' @ ws' @ '');'' @ rest),
        2 := take (length (''['' @ b @ '']'' @ ws' @ '');'' @ rest) - length (ws' @ '');'' @ rest))
                  (''['' @ b @ '']'' @ ws' @ '');'' @ rest),
        0 := take (length ?s - length rest) ?s)"
  have "bt pattern1 ?s (\<lambda>_. []) ?K = Some (?g, rest)"
    unfolding pattern1_def
    apply (rule bt_Seq_LitI)
    apply (rule bt_Seq_GroupI)
    apply (rule bt_PlusI)
       apply (simp add: g1)
      apply (simp add: g1)
      using g1 apply fastforce
     apply simp
    apply (rule bt_Seq_LitI)
    apply (rule bt_Seq_StarI)
      apply (simp add: ws)
     apply (simp add: sp)
    apply (rule bt_Seq_GroupI)
    apply (rule bt_Seq_LitI)
    apply (rule bt_Seq_StarI)
      using b apply fastforce
     apply simp
    apply (rule bt_LitI)
    apply (rule bt_Seq_StarI)
      apply (simp add: ws)
     apply (simp add: sp)
    apply (rule bt_LitI)
    apply (rule refl)
    done
  then have "re_match pattern1 ?s = Some (?g, rest)" by (simp only: re_match_def)
  moreover have "?g 1 = g1" by simp
  moreover have "?g 2 = ''['' @ b @ '']''" by simp
  ultimately show ?thesis by blast
qed

lemma split_unique:
  "xs @ y # ys = xs' @ y' # ys' \<Longrightarrow> \<forall>x\<in>set xs. P x \<Longrightarrow> \<forall>x\<in>set xs'. P x \<Longrightarrow>
   \<not> P y \<Longrightarrow> \<not> P y' \<Longrightarrow> xs = xs' \<and> y = y' \<and> ys = ys'"
proof (induction xs arbitrary: xs')
  case Nil
  then show ?case by (cases xs') auto
next
  case (Cons x xs)
  then show ?case by (cases xs') auto
qed

lemma bt_Alt_query_LazyI:
  assumes pre: "CHR '','' \<notin> set pre" "CHR 0x0A \<notin> set pre"
    and fail: "\<And>s' g'. \<not> prefix '','' s' \<Longrightarrow> K s' g' = None"
    and ok: "K ('','' @ r) g = Some x"
  shows "bt (Alt (Lit ''query'') (LazyStar Dot)) (pre @ '','' @ r) g K = Some x"
proof -
  have "star_lazy (cls_matches Dot) (pre @ '','' @ r) (\<lambda>r. K r g) = Some x"
  proof (rule star_lazy_app)
    show "\<forall>c\<in>set pre. cls_matches Dot c" using pre(2) by auto
    show "K (c # s) g = None" if "c \<in> set pre" for c s
      using that pre(1) by (intro fail) auto
    show "K ('','' @ r) g = Some x" by (rule ok)
  qed
  then have lazy: "bt (LazyStar Dot) (pre @ '','' @ r) g K = Some x" by simp
  show ?thesis
  proof (cases "bt (Lit ''query'') (pre @ '','' @ r) g K")
    case None
    with lazy show ?thesis by simp
  next
    case (Some y)
    from bt_LitD [OF Some] obtain t where t: "pre @ '','' @ r = ''query'' @ t" and y: "K t g = Some y"
      by blast
    with fail [of t g] obtain t' where t': "t = CHR '','' # t'"
      by (cases t) (auto simp: prefix_def)
    from t t' have "pre @ CHR '','' # r = ''query'' @ CHR '','' # t'" by simp
    from split_unique [OF this, of "\<lambda>c. c \<noteq> CHR '',''"] pre(1)
    have "r = t'" by auto
    with y t' ok have "y = x" by simp
    with Some show ?thesis by simp
  qed
qed

lemma re_match_patternI:
  assumes g1: "CHR '','' \<notin> set g1" "CHR 0x0A \<notin> set g1"
    and ws: "\<forall>c\<in>set ws. is_space c" "\<forall>c\<in>set ws'. is_space c"
    and b: "CHR '']'' \<notin> set b"
  shows "\<exists>g. re_match pattern
            (''executeQuery('' @ g1 @ '','' @ ws @ ''['' @ b @ '']'' @ ws' @ '')'' @ rest) = Some (g, rest)
          \<and> g 1 = g1 \<and> g 2 = ''['' @ b @ '']''
          \<and> g 0 = ''executeQuery('' @ g1 @ '','' @ ws @ ''['' @ b @ '']'' @ ws' @ '')''"
proof -
  have sp: "\<not> is_space CHR ''[''" "\<not> is_space CHR '')''" by (simp_all add: is_space_def)
  let ?s = "''executeQuery('' @ g1 @ '','' @ ws @ ''['' @ b @ '']'' @ ws' @ '')'' @ rest"
  let ?K = "\<lambda>r g. Some (g(0 := take (length ?s - length r) ?s), r)"
  let ?g = "(\<lambda>_::nat. [])(1 := take (length (g1 @ '','' @ ws @ ''['' @ b @ '']'' @ ws' @ '')'' @ rest)
                           - length ('','' @ ws @ ''['' @ b @ '']'' @ ws' @ '')'' @ rest))
                          (g1 @ '','' @ ws @ ''['' @ b @ '']'' @ ws' @ '')'' @ rest),
        2 := take (length (''['' @ b @ '']'' @ ws' @ '')'' @ rest) - length (ws' @ '')'' @ rest))
                  (''['' @ b @ '']'' @ ws' @ '')'' @ rest),
        0 := take (length ?s - length rest) ?s)"
  have "bt pattern ?s (\<lambda>_. []) ?K = Some (?g, rest)"
    unfolding pattern_def
    apply (rule bt_Seq_LitI)
    apply (rule bt_Seq_GroupI)
    apply (rule bt_Alt_query_LazyI)
       apply (rule g1)
      apply (rule g1)
     apply (simp add: prefix_def)
    apply (rule bt_Seq_LitI)
    apply (rule bt_Seq_StarI)
      apply (simp add: ws)
     apply (simp add: sp)
    apply (rule bt_Seq_GroupI)
    apply (rule bt_Seq_LitI)
    apply (rule bt_Seq_LazyStarI)
      apply simp
      using b apply (simp add: prefix_def)
      apply fastforce
    apply (rule bt_LitI)
    apply (rule bt_Seq_StarI)
      apply (simp add: ws)
     apply (simp add: sp)
    apply (rule bt_LitI)
    apply (rule refl)
    done
  then have m: "re_match pattern ?s = Some (?g, rest)" by (simp only: re_match_def)
  have "?s = (''executeQuery('' @ g1 @ '','' @ ws @ ''['' @ b @ '']'' @ ws' @ '')'') @ rest"
    by simp
  from take_span [OF this]
  have "?g 0 = ''executeQuery('' @ g1 @ '','' @ ws @ ''['' @ b @ '']'' @ ws' @ '')''" by simp
  moreover have "?g 1 = g1" by simp
  moreover have "?g 2 = ''['' @ b @ '']''" by simp
  ultimately show ?thesis using m by blast
qed

subsection \<open>Substitution and rewritten spans\<close>

lemma re_sub_match:
  "re_match r s = Some (g, rest) \<Longrightarrow> length rest < length s \<Longrightarrow> re_sub r f s = f g @ re_sub r f rest"
  by (subst re_sub.simps) simp





lemma not_prefix_eQ:
  "c \<noteq> CHR ''e'' \<Longrightarrow> \<not> prefix ''executeQuery('' (c # s)"
  "c \<noteq> CHR ''x'' \<Longrightarrow> \<not> prefix ''executeQuery('' (d # c # s)"
  "\<not> prefix ''executeQuery('' []"
  by simp_all


















subsection \<open>The span of a match and the text outside the spans\<close>

lemma star_greedy_suffix:
  "star_greedy p s k = Some x \<Longrightarrow> \<exists>r. suffix r s \<and> k r = Some x"
  by (drule star_greedy_SomeD) (auto simp: suffix_def)

lemma star_lazy_suffix:
  "star_lazy p s k = Some x \<Longrightarrow> \<exists>r. suffix r s \<and> k r = Some x"
  by (drule star_lazy_SomeD) (auto simp: suffix_def)

lemma bt_suffix:
  "bt r s g k = Some x \<Longrightarrow> \<exists>s' g'. suffix s' s \<and> k s' g' = Some x"
proof (induction r arbitrary: s g k)
  case (Lit l)
  then have "k (drop (length l) s) g = Some x" by (auto split: if_splits)
  with suffix_drop [of "length l" s] show ?case by blast
next
  case (One p)
  then show ?case by (auto simp: suffix_Cons split: list.splits if_splits)
next
  case (Plus p)
  then obtain c s' where s: "s = c # s'"
    and "star_greedy (cls_matches p) s' (\<lambda>r. k r g) = Some x"
    by (auto split: list.splits if_splits)
  from star_greedy_suffix [OF this(2)] s show ?case by (auto simp: suffix_Cons)
next
  case (Star p)
  then have "star_greedy (cls_matches p) s (\<lambda>r. k r g) = Some x" by simp
  from star_greedy_suffix [OF this] show ?case by blast
next
  case (LazyStar p)
  then have "star_lazy (cls_matches p) s (\<lambda>r. k r g) = Some x" by simp
  from star_lazy_suffix [OF this] show ?case by blast
next
  case (Alt a b)
  show ?case
  proof (cases "bt a s g k")
    case None
    with Alt.prems have "bt b s g k = Some x" by simp
    from Alt.IH(2) [OF this] show ?thesis .
  next
    case (Some y)
    with Alt.prems have "bt a s g k = Some x" by simp
    from Alt.IH(1) [OF this] show ?thesis .
  qed
next
  case (Seq a b)
  then have "bt a s g (\<lambda>r g'. bt b r g' k) = Some x" by simp
  from Seq.IH(1) [OF this] obtain s1 g1 where s1: "suffix s1 s" and "bt b s1 g1 k = Some x"
    by blast
  from Seq.IH(2) [OF this(2)] obtain s2 g2 where "suffix s2 s1" "k s2 g2 = Some x" by blast
  with s1 show ?case by (blast intro: suffix_order.trans)
next
  case (Group n a)
  then have "bt a s g (\<lambda>r g'. k r (g'(n := take (length s - length r) s))) = Some x" by simp
  from Group.IH [OF this] show ?case by blast
qed

lemma re_match_span:
  assumes "re_match r s = Some (g, rest)"
  shows "s = g 0 @ rest"
proof -
  from assms [unfolded re_match_def, THEN bt_suffix]
  obtain s' g' where s': "suffix s' s"
    and "Some (g'(0 := take (length s - length s') s), s') = Some (g, rest)"
    by blast
  then have "rest = s'" "g 0 = take (length s - length rest) s" by auto
  with s' show ?thesis by (auto simp: suffix_def)
qed



subsection \<open>Further facts\<close>

lemma re_match_pattern2I:
  assumes g1: "g1 \<noteq> []" "CHR '','' \<notin> set g1"
    and ws: "\<forall>c\<in>set ws. is_space c" "\<forall>c\<in>set ws'. is_space c"
    and b: "CHR '']'' \<notin> set b"
    and c: "c \<noteq> CHR '';''"
  shows "\<exists>g. re_match pattern2
            (''executeQuery('' @ g1 @ '','' @ ws @ ''['' @ b @ '']'' @ ws' @ '')'' @ c # rest) = Some (g, rest)
          \<and> g 1 = g1 \<and> g 2 = ''['' @ b @ '']'' \<and> g 3 = [c]"
proof -
  have sp: "\<not> is_space CHR ''[''" "\<not> is_space CHR '')''" by (simp_all add: is_space_def)
  let ?s = "''executeQuery('' @ g1 @ '','' @ ws @ ''['' @ b @ '']'' @ ws' @ '')'' @ c # rest"
  let ?K = "\<lambda>r g. Some (g(0 := take (length ?s - length r) ?s), r)"
  let ?g = "(\<lambda>_::nat. [])(1 := take (length (g1 @ '','' @ ws @ ''['' @ b @ '']'' @ ws' @ '')'' @ c # rest)
                           - length ('','' @ ws @ ''['' @ b @ '']'' @ ws' @ '')'' @ c # rest))
                          (g1 @ '','' @ ws @ ''['' @ b @ '']'' @ ws' @ '')'' @ c # rest),
        2 := take (length (''['' @ b @ '']'' @ ws' @ '')'' @ c # rest) - length (ws' @ '')'' @ c # rest))
                  (''['' @ b @ '']'' @ ws' @ '')'' @ c # rest),
        3 := take (length (c # rest) - length rest) (c # rest),
        0 := take (length ?s - length rest) ?s)"
  have "bt pattern2 ?s (\<lambda>_. []) ?K = Some (?g, rest)"
    unfolding pattern2_def
    apply (rule bt_Seq_LitI)
    apply (rule bt_Seq_GroupI)
    apply (rule bt_PlusI)
       apply (simp add: g1)
      apply (simp add: g1)
      using g1 apply fastforce
     apply simp
    apply (rule bt_Seq_LitI)
    apply (rule bt_Seq_StarI)
      apply (simp add: ws)
     apply (simp add: sp)
    apply (rule bt_Seq_GroupI)
    apply (rule bt_Seq_LitI)
    apply (rule bt_Seq_StarI)
      using b apply fastforce
     apply simp
    apply (rule bt_LitI)
    apply (rule bt_Seq_StarI)
      apply (simp add: ws)
     apply (simp add: sp)
    apply (rule bt_Seq_LitI)
    apply (simp add: c)
    done
  then have "re_match pattern2 ?s = Some (?g, rest)" by (simp only: re_match_def)
  moreover have "?g 1 = g1" by simp
  moreover have "?g 2 = ''['' @ b @ '']''" by simp
  moreover have "?g 3 = [c]" by simp
  ultimately show ?thesis by blast
qed










lemma normalize_v2_pattern_match:
  assumes "re_match pattern t = Some (g, rest)"
  shows "normalize_v2 t = replacer g @ normalize_v2 rest"
proof -
  from re_match_patternD [OF assms] have "length rest < length t" by auto
  from re_sub_match [OF assms this] show ?thesis by (simp add: normalize_v2_def)
qed


section \<open>The scenarios of the specification\<close>

text \<open>
  C8 (scenario 1): on \<^verbatim>\<open>executeQuery(query, [id]);\<close> both scripts produce
  \<^verbatim>\<open>executeQuery(query, [id], mapRowToObject);\<close>.
\<close>

theorem scenario1_canonical_rewrite:
  "normalize_v1 ''executeQuery(query, [id]);'' = ''executeQuery(query, [id], mapRowToObject);''
   \<and> normalize_v2 ''executeQuery(query, [id]);'' = ''executeQuery(query, [id], mapRowToObject);''"
  by code_simp

text \<open>
  C6 (scenario 2): a call without a semicolon that ends the document. The second
  script rewrites it; the first leaves it as it is, because its second pattern asks
  for one more character after the closing parenthesis. With a line feed after the
  call both scripts rewrite it.
\<close>

theorem scenario2_at_end_of_document:
  "normalize_v1 ''return executeQuery(sql, [a, b])'' = ''return executeQuery(sql, [a, b])''
   \<and> normalize_v2 ''return executeQuery(sql, [a, b])''
       = ''return executeQuery(sql, [a, b], mapRowToObject)''
   \<and> normalize_v1 ''return executeQuery(sql, [a, b])\<newline>''
       = ''return executeQuery(sql, [a, b], mapRowToObject)\<newline>''"
  by code_simp

section \<open>What the scripts print\<close>

text \<open>
  C9: whatever two files the script is run on, when both runs succeed they print the
  same line, which is the fixed message of the script.
\<close>

theorem fixed_success_message:
  "script_v1 fs1 = Inr (fs1', out1) \<Longrightarrow> script_v1 fs2 = Inr (fs2', out2) \<Longrightarrow>
   script_v2 fs3 = Inr (fs3', out3) \<Longrightarrow> script_v2 fs4 = Inr (fs4', out4) \<Longrightarrow>
   out1 = out2 \<and> out1 = ''Fixed all executeQuery calls!\<newline>''
   \<and> out3 = out4 \<and> out3 = ''Fixed all executeQuery calls (v2)!\<newline>''"
  by (auto simp: script_v1_def script_v2_def split: option.splits)

theorem fixed_success_message_witness:
  "script_v1 [path \<mapsto> ''executeQuery(query, [id]);'']
     = Inr ([path \<mapsto> ''executeQuery(query, [id], mapRowToObject);''],
            ''Fixed all executeQuery calls!\<newline>'')
   \<and> script_v1 [path \<mapsto> ''no call here''] = Inr ([path \<mapsto> ''no call here''], ''Fixed all executeQuery calls!\<newline>'')
   \<and> script_v2 [path \<mapsto> ''executeQuery(query, [id]);'']
     = Inr ([path \<mapsto> ''executeQuery(query, [id], mapRowToObject);''],
            ''Fixed all executeQuery calls (v2)!\<newline>'')
   \<and> script_v2 [path \<mapsto> ''no call here''] = Inr ([path \<mapsto> ''no call here''], ''Fixed all executeQuery calls (v2)!\<newline>'')"
proof -
  have n1: "normalize_v1 ''executeQuery(query, [id]);'' = ''executeQuery(query, [id], mapRowToObject);''"
    by code_simp
  have n2: "normalize_v2 ''executeQuery(query, [id]);'' = ''executeQuery(query, [id], mapRowToObject);''"
    by code_simp
  have n3: "normalize_v1 ''no call here'' = ''no call here''"
    by code_simp
  have n4: "normalize_v2 ''no call here'' = ''no call here''"
    by code_simp
  have a: "script_v1 [path \<mapsto> ''executeQuery(query, [id]);'']
     = Inr ([path \<mapsto> ''executeQuery(query, [id], mapRowToObject);''],
            ''Fixed all executeQuery calls!\<newline>'')"
    by (simp add: script_v1_def n1)
  have b: "script_v1 [path \<mapsto> ''no call here'']
     = Inr ([path \<mapsto> ''no call here''], ''Fixed all executeQuery calls!\<newline>'')"
    by (simp add: script_v1_def n3)
  have c: "script_v2 [path \<mapsto> ''executeQuery(query, [id]);'']
     = Inr ([path \<mapsto> ''executeQuery(query, [id], mapRowToObject);''],
            ''Fixed all executeQuery calls (v2)!\<newline>'')"
    by (simp add: script_v2_def n2)
  have d: "script_v2 [path \<mapsto> ''no call here'']
     = Inr ([path \<mapsto> ''no call here''], ''Fixed all executeQuery calls (v2)!\<newline>'')"
    by (simp add: script_v2_def n4)
  from fixed_success_message [OF a b c d] a b c d show ?thesis by simp
qed


section \<open>The claims about every input\<close>






text \<open>
  C2, as the code has it. The first script has no guard: a call whose first argument
  already is the identifier gets it a second time.
\<close>

theorem v1_inserts_second_identifier:
  "normalize_v1 ''executeQuery(mapRowToObject, [id]);''
     = ''executeQuery(mapRowToObject, [id], mapRowToObject);''"
  by code_simp

text \<open>
  C2, amended. The invariant holds for \<^verbatim>\<open>fix-template-queries-v2.py\<close>: when the span \<open>g 0\<close> that its
  pattern matches at the start of a text contains the identifier, \<open>replacer\<close> returns the
  span, and the output is the span, byte for byte, followed by the normalization of
  the text after it.
\<close>

theorem v2_guard_leaves_span:
  assumes "re_match pattern t = Some (g, rest)" and "contains ''mapRowToObject'' (g 0)"
  shows "t = g 0 @ rest \<and> replacer g = g 0 \<and> normalize_v2 t = g 0 @ normalize_v2 rest"
proof -
  from assms(2) have r: "replacer g = g 0" by (simp add: replacer_def)
  from re_match_span [OF assms(1)] r normalize_v2_pattern_match [OF assms(1)]
  show ?thesis by simp
qed

theorem v2_guard_leaves_span_witness:
  "normalize_v2 ''executeQuery(mapRowToObject, [id]);'' = ''executeQuery(mapRowToObject, [id]);''"
proof -
  have sp: "\<forall>c\<in>set '' ''. is_space c" "\<forall>c\<in>set []. is_space c" by (simp_all add: is_space_def)
  from re_match_patternI [of "''mapRowToObject''" "'' ''" "[]" "''id''" "'';''"] sp
  obtain g where m: "re_match pattern ''executeQuery(mapRowToObject, [id]);'' = Some (g, '';'')"
    and g: "g 0 = ''executeQuery(mapRowToObject, [id])''"
    by auto
  have c: "contains ''mapRowToObject'' ''executeQuery(mapRowToObject, [id])''" by code_simp
  have n: "normalize_v2 '';'' = '';''" by code_simp
  from v2_guard_leaves_span [OF m] c g n show ?thesis by simp
qed

text \<open>
  C3, as the code has it. The replacement is built from the two captured arguments
  and fixed text, so the white space between the comma and the array literal comes
  out as one space and the white space before the closing parenthesis is dropped.
\<close>

theorem white_space_of_span_not_kept:
  "normalize_v1 ''executeQuery(q,[a] );'' = ''executeQuery(q, [a], mapRowToObject);''
   \<and> normalize_v1 ''executeQuery(q,\<newline>  [a] )+'' = ''executeQuery(q, [a], mapRowToObject)+''
   \<and> normalize_v2 ''executeQuery(q,[a] );'' = ''executeQuery(q, [a], mapRowToObject);''"
  by code_simp

text \<open>
  C3, amended. What holds for every match of the three patterns: the matched span \<open>g 0\<close> is the
  function name, the first argument \<open>g 1\<close>, a comma, white space \<open>ws\<close>, the array
  literal \<open>g 2\<close>, white space \<open>ws'\<close> and the closing parenthesis (with the semicolon
  for \<open>pattern1\<close>, with the next character \<open>g 3\<close> for \<open>pattern2\<close>); the replacement has
  the two arguments byte for byte, one space for \<open>ws\<close>, nothing for \<open>ws'\<close>, and the
  identifier before the closing parenthesis.
\<close>

theorem replacement_of_matched_span:
  "(re_match pattern1 ta = Some (ga, ra) \<longrightarrow>
      (\<exists>ws ws'. (\<forall>c\<in>set (ws @ ws'). is_space c) \<and> ta = ga 0 @ ra
         \<and> ga 0 = ''executeQuery('' @ ga 1 @ '','' @ ws @ ga 2 @ ws' @ '');''
         \<and> expand template1 ga = ''executeQuery('' @ ga 1 @ '', '' @ ga 2 @ '', mapRowToObject);''))
   \<and> (re_match pattern2 tb = Some (gb, rb) \<longrightarrow>
      (\<exists>ws ws'. (\<forall>c\<in>set (ws @ ws'). is_space c) \<and> tb = gb 0 @ rb
         \<and> gb 0 = ''executeQuery('' @ gb 1 @ '','' @ ws @ gb 2 @ ws' @ '')'' @ gb 3
         \<and> expand template2 gb = ''executeQuery('' @ gb 1 @ '', '' @ gb 2 @ '', mapRowToObject)'' @ gb 3))
   \<and> (re_match pattern tc = Some (gc, rc) \<longrightarrow>
      (\<exists>ws ws'. (\<forall>c\<in>set (ws @ ws'). is_space c) \<and> tc = gc 0 @ rc
         \<and> gc 0 = ''executeQuery('' @ gc 1 @ '','' @ ws @ gc 2 @ ws' @ '')''
         \<and> (\<not> contains ''mapRowToObject'' (gc 0) \<longrightarrow>
              replacer gc = ''executeQuery('' @ gc 1 @ '', '' @ gc 2 @ '', mapRowToObject)'')))"
proof (intro conjI impI)
  assume m: "re_match pattern1 ta = Some (ga, ra)"
  from re_match_pattern1D [OF m] obtain g1 ws b ws' where
    ws: "\<forall>c\<in>set ws. is_space c" "\<forall>c\<in>set ws'. is_space c"
    and g: "ga 1 = g1" "ga 2 = ''['' @ b @ '']''"
      "ga 0 = ''executeQuery('' @ g1 @ '','' @ ws @ ''['' @ b @ '']'' @ ws' @ '');''"
    by blast
  from ws have 1: "\<forall>c\<in>set (ws @ ws'). is_space c" by auto
  from g have 2: "ga 0 = ''executeQuery('' @ ga 1 @ '','' @ ws @ ga 2 @ ws' @ '');''" by simp
  have 3: "expand template1 ga = ''executeQuery('' @ ga 1 @ '', '' @ ga 2 @ '', mapRowToObject);''"
    by (simp add: template1_def)
  from 1 2 3 re_match_span [OF m]
  show "\<exists>ws ws'. (\<forall>c\<in>set (ws @ ws'). is_space c) \<and> ta = ga 0 @ ra
         \<and> ga 0 = ''executeQuery('' @ ga 1 @ '','' @ ws @ ga 2 @ ws' @ '');''
         \<and> expand template1 ga = ''executeQuery('' @ ga 1 @ '', '' @ ga 2 @ '', mapRowToObject);''"
    by blast
next
  assume m: "re_match pattern2 tb = Some (gb, rb)"
  from re_match_pattern2D [OF m] obtain g1 ws b ws' c where
    ws: "\<forall>c\<in>set ws. is_space c" "\<forall>c\<in>set ws'. is_space c"
    and g: "gb 1 = g1" "gb 2 = ''['' @ b @ '']''" "gb 3 = [c]"
      "gb 0 = ''executeQuery('' @ g1 @ '','' @ ws @ ''['' @ b @ '']'' @ ws' @ '')'' @ [c]"
    by blast
  from ws have 1: "\<forall>c\<in>set (ws @ ws'). is_space c" by auto
  from g have 2: "gb 0 = ''executeQuery('' @ gb 1 @ '','' @ ws @ gb 2 @ ws' @ '')'' @ gb 3" by simp
  have 3: "expand template2 gb = ''executeQuery('' @ gb 1 @ '', '' @ gb 2 @ '', mapRowToObject)'' @ gb 3"
    by (simp add: template2_def)
  from 1 2 3 re_match_span [OF m]
  show "\<exists>ws ws'. (\<forall>c\<in>set (ws @ ws'). is_space c) \<and> tb = gb 0 @ rb
         \<and> gb 0 = ''executeQuery('' @ gb 1 @ '','' @ ws @ gb 2 @ ws' @ '')'' @ gb 3
         \<and> expand template2 gb = ''executeQuery('' @ gb 1 @ '', '' @ gb 2 @ '', mapRowToObject)'' @ gb 3"
    by blast
next
  assume m: "re_match pattern tc = Some (gc, rc)"
  from re_match_patternD [OF m] obtain g1 ws b ws' where
    ws: "\<forall>c\<in>set ws. is_space c" "\<forall>c\<in>set ws'. is_space c"
    and g: "gc 1 = g1" "gc 2 = ''['' @ b @ '']''"
      "gc 0 = ''executeQuery('' @ g1 @ '','' @ ws @ ''['' @ b @ '']'' @ ws' @ '')''"
    by blast
  from ws have 1: "\<forall>c\<in>set (ws @ ws'). is_space c" by auto
  from g have 2: "gc 0 = ''executeQuery('' @ gc 1 @ '','' @ ws @ gc 2 @ ws' @ '')''" by simp
  have 3: "\<not> contains ''mapRowToObject'' (gc 0) \<longrightarrow>
      replacer gc = ''executeQuery('' @ gc 1 @ '', '' @ gc 2 @ '', mapRowToObject)''"
    by (simp add: replacer_def)
  from 1 2 3 re_match_span [OF m]
  show "\<exists>ws ws'. (\<forall>c\<in>set (ws @ ws'). is_space c) \<and> tc = gc 0 @ rc
         \<and> gc 0 = ''executeQuery('' @ gc 1 @ '','' @ ws @ gc 2 @ ws' @ '')''
         \<and> (\<not> contains ''mapRowToObject'' (gc 0) \<longrightarrow>
              replacer gc = ''executeQuery('' @ gc 1 @ '', '' @ gc 2 @ '', mapRowToObject)'')"
    by blast
qed

theorem replacement_of_matched_span_witness:
  "(\<exists>ga. re_match pattern1 ''executeQuery(q,\<newline>  [a] );'' = Some (ga, [])
        \<and> ga 0 = ''executeQuery(q,\<newline>  [a] );''
        \<and> expand template1 ga = ''executeQuery(q, [a], mapRowToObject);'')
   \<and> (\<exists>gb. re_match pattern2 ''executeQuery(q,\<newline>  [a] )+'' = Some (gb, [])
        \<and> gb 0 = ''executeQuery(q,\<newline>  [a] )+''
        \<and> expand template2 gb = ''executeQuery(q, [a], mapRowToObject)+'')
   \<and> (\<exists>gc. re_match pattern ''executeQuery(q,\<newline>  [a] )'' = Some (gc, [])
        \<and> gc 0 = ''executeQuery(q,\<newline>  [a] )''
        \<and> replacer gc = ''executeQuery(q, [a], mapRowToObject)'')"
proof -
  have sp: "\<forall>c\<in>set ''\<newline>  ''. is_space c" "\<forall>c\<in>set '' ''. is_space c" by (simp_all add: is_space_def)
  from re_match_pattern1I [of "''q''" "''\<newline>  ''" "'' ''" "''a''" "[]"] sp
  obtain ga where ma: "re_match pattern1 ''executeQuery(q,\<newline>  [a] );'' = Some (ga, [])"
    and ga: "ga 1 = ''q''" "ga 2 = ''[a]''"
    by auto
  from re_match_pattern2I [of "''q''" "''\<newline>  ''" "'' ''" "''a''" "CHR ''+''" "[]"] sp
  obtain gb where mb: "re_match pattern2 ''executeQuery(q,\<newline>  [a] )+'' = Some (gb, [])"
    and gb: "gb 1 = ''q''" "gb 2 = ''[a]''" "gb 3 = ''+''"
    by auto
  from re_match_patternI [of "''q''" "''\<newline>  ''" "'' ''" "''a''" "[]"] sp
  obtain gc where mc: "re_match pattern ''executeQuery(q,\<newline>  [a] )'' = Some (gc, [])"
    and gc: "gc 1 = ''q''" "gc 2 = ''[a]''"
    by auto
  note th = replacement_of_matched_span [of "''executeQuery(q,\<newline>  [a] );''" ga "[]"
      "''executeQuery(q,\<newline>  [a] )+''" gb "[]" "''executeQuery(q,\<newline>  [a] )''" gc "[]"]
  from th ma ga have a: "ga 0 = ''executeQuery(q,\<newline>  [a] );''
      \<and> expand template1 ga = ''executeQuery(q, [a], mapRowToObject);''"
    by auto
  from th mb gb have b: "gb 0 = ''executeQuery(q,\<newline>  [a] )+''
      \<and> expand template2 gb = ''executeQuery(q, [a], mapRowToObject)+''"
    by auto
  from th mc have c0: "gc 0 = ''executeQuery(q,\<newline>  [a] )''" by auto
  have "\<not> contains ''mapRowToObject'' ''executeQuery(q,\<newline>  [a] )''" by code_simp
  with th mc gc c0 have c: "replacer gc = ''executeQuery(q, [a], mapRowToObject)''"
    by auto
  from ma mb mc a b c0 c show ?thesis by blast
qed









end
